theory Spec2Isabelle
  imports Main
begin

section \<open>JavaScript values and array primitives\<close>

text \<open>
  Request bodies are parsed JSON. A property that is absent reads as \<open>undefined\<close>.
  Numbers are carried through unchanged and never computed with.
\<close>

datatype jvalue =
    JUndefined
  | JNull
  | JBool bool
  | JNum int
  | JStr string
  | JArr "jvalue list"
  | JObj "(string \<times> jvalue) list"

text \<open>Property access \<open>body.name\<close> on a parsed body.\<close>

fun getProp :: "jvalue \<Rightarrow> string \<Rightarrow> jvalue" where
  "getProp (JObj kvs) k = (case map_of kvs k of Some v \<Rightarrow> v | None \<Rightarrow> JUndefined)"
| "getProp _ k = JUndefined"

text \<open>
  \<open>Array.prototype.indexOf\<close>: the index of the first occurrence, \<open>-1\<close> when there is
  none.
\<close>

fun indexOf :: "'a list \<Rightarrow> 'a \<Rightarrow> int" where
  "indexOf [] x = - 1"
| "indexOf (y # ys) x =
     (if y = x then 0
      else (let i = indexOf ys x in if i < 0 then - 1 else i + 1))"

text \<open>
  \<open>Array.prototype.splice(start, deleteCount)\<close>, the array that is left. A negative
  \<open>start\<close> counts from the end; both bounds are clamped to the array.
\<close>

definition splice :: "int \<Rightarrow> int \<Rightarrow> 'a list \<Rightarrow> 'a list" where
  "splice start deleteCount xs =
     (let len = int (length xs);
          actualStart = (if start < 0 then max (len + start) 0 else min start len);
          actualDeleteCount = min (max deleteCount 0) (len - actualStart)
      in take (nat actualStart) xs @ drop (nat (actualStart + actualDeleteCount)) xs)"

text \<open>
  \<open>Array.prototype.forEach\<close>: the length is read once, before the first call; index
  \<open>k\<close> is visited only if the array still has it when its turn comes, and the element
  passed to the callback is the one found there at that moment. The array lives in the
  state \<open>'s\<close> and is read through \<open>arr\<close>, so a callback that changes the array is seen
  by the rest of the loop.
\<close>

function forEach_from :: "('s \<Rightarrow> 'a list) \<Rightarrow> ('a \<Rightarrow> 's \<Rightarrow> 's) \<Rightarrow> nat \<Rightarrow> nat \<Rightarrow> 's \<Rightarrow> 's" where
  "forEach_from arr f k len s =
     (if k < len
      then forEach_from arr f (Suc k) len (if k < length (arr s) then f (arr s ! k) s else s)
      else s)"
  by pat_completeness auto
termination
  by (relation "measure (\<lambda>(arr, f, k, len, s). len - k)") auto

declare forEach_from.simps [simp del]

definition forEach :: "('s \<Rightarrow> 'a list) \<Rightarrow> ('a \<Rightarrow> 's \<Rightarrow> 's) \<Rightarrow> 's \<Rightarrow> 's" where
  "forEach arr f s = forEach_from arr f 0 (length (arr s)) s"

section \<open>The signaling rendezvous (\<open>setUpRendezvous\<close>)\<close>

text \<open>
  A connection is the object \<open>{uuid, res}\<close> built by the \<open>sse\<close> middleware. Response
  objects are identified by the order in which the HTTP layer hands them out.
\<close>

record connection =
  uuid :: string
  res :: nat

text \<open>The packets handed to \<open>res.sseSend\<close>, one constructor for each \<open>type\<close>.\<close>

datatype packet =
    Accept
  | Ping
  | Announce jvalue
  | Signal jvalue jvalue jvalue

text \<open>
  The state of the closure: the \<open>connections\<close> array, the running keep-alive timers
  (\<open>res.interval\<close>, with their period in milliseconds), the frames written so far, in
  order, each with the response it was written to, and the number of response objects
  handed out so far.
\<close>

record rendezvous =
  connections :: "connection list"
  intervals :: "connection \<rightharpoonup> nat"
  wire :: "(nat \<times> packet) list"
  fresh :: nat

definition initial :: rendezvous where
  "initial = \<lparr>connections = [], intervals = Map.empty, wire = [], fresh = 0\<rparr>"

definition setInterval :: "connection \<Rightarrow> nat \<Rightarrow> rendezvous \<Rightarrow> rendezvous" where
  "setInterval c period s = s\<lparr>intervals := (intervals s)(c \<mapsto> period)\<rparr>"

definition clearInterval :: "connection \<Rightarrow> rendezvous \<Rightarrow> rendezvous" where
  "clearInterval c s = s\<lparr>intervals := (intervals s)(c := None)\<rparr>"

text \<open>
  \<open>res.sseSend\<close>. Whether \<open>res.write\<close> throws is decided by the socket, outside the
  program: \<open>writable r\<close> says that a write to response \<open>r\<close> goes through. The text
  written is \<open>data: \<close>, the packet as JSON and an empty line; \<open>wire\<close> records the packet.
\<close>

definition sseSend :: "(nat \<Rightarrow> bool) \<Rightarrow> connection \<Rightarrow> packet \<Rightarrow> rendezvous \<Rightarrow> rendezvous" where
  "sseSend writable c data s =
     (if writable (res c)
      then s\<lparr>wire := wire s @ [(res c, data)]\<rparr>
      else clearInterval c
             (s\<lparr>connections := splice (indexOf (connections s) c) 1 (connections s)\<rparr>))"

text \<open>The \<open>sse\<close> middleware: start the keep-alive timer, then store the connection.\<close>

definition sse :: "string \<Rightarrow> nat \<Rightarrow> rendezvous \<Rightarrow> connection \<times> rendezvous" where
  "sse u r s =
     (let c = \<lparr>uuid = u, res = r\<rparr>;
          s1 = setInterval c 5000 s
      in (c, s1\<lparr>connections := connections s1 @ [c]\<rparr>))"

text \<open>\<open>GET /signaling/:uuid/listen\<close>: the middleware, then the handler's \<open>accept\<close>.\<close>

definition listen :: "(nat \<Rightarrow> bool) \<Rightarrow> string \<Rightarrow> rendezvous \<Rightarrow> rendezvous" where
  "listen writable u s =
     (let (c, s1) = sse u (fresh s) (s\<lparr>fresh := Suc (fresh s)\<rparr>)
      in sseSend writable c Accept s1)"

text \<open>The timer callback; it runs only while the timer has not been cleared.\<close>

definition interval_fires :: "(nat \<Rightarrow> bool) \<Rightarrow> connection \<Rightarrow> rendezvous \<Rightarrow> rendezvous" where
  "interval_fires writable c s =
     (case intervals s c of None \<Rightarrow> s | Some period \<Rightarrow> sseSend writable c Ping s)"

text \<open>\<open>POST /signaling/announce\<close>, with the new state and the status sent.\<close>

definition announce :: "(nat \<Rightarrow> bool) \<Rightarrow> jvalue \<Rightarrow> rendezvous \<Rightarrow> rendezvous \<times> nat" where
  "announce writable body s =
     (let u = getProp body ''uuid'';
          packet = Announce u
      in (forEach connections
            (\<lambda>c s. if JStr (uuid c) \<noteq> u then sseSend writable c packet s else s) s,
          200))"

text \<open>
  \<open>POST /signaling/:uuid/signal\<close>. The local \<open>result\<close> travels with the state through
  the loop.
\<close>

definition signal :: "(nat \<Rightarrow> bool) \<Rightarrow> string \<Rightarrow> jvalue \<Rightarrow> rendezvous \<Rightarrow> rendezvous \<times> nat" where
  "signal writable target body s =
     (let packet = Signal (getProp body ''initiator'') (getProp body ''data'')
                     (getProp body ''uuid'');
          (result, s') =
             forEach (\<lambda>(result, s). connections s)
               (\<lambda>c (result, s).
                  if uuid c = target then (True, sseSend writable c packet s)
                  else (result, s))
               (False, s)
      in (s', if result then 200 else 404))"

text \<open>The frames written to one response, in order.\<close>

definition sent_to :: "nat \<Rightarrow> (nat \<times> packet) list \<Rightarrow> packet list" where
  "sent_to r w = map snd (filter (\<lambda>(r', p). r' = r) w)"

text \<open>The states the server can be in: any interleaving of requests and timer firings.\<close>

inductive reachable :: "rendezvous \<Rightarrow> bool" where
  start: "reachable initial"
| listens: "reachable s \<Longrightarrow> reachable (listen writable u s)"
| announces: "reachable s \<Longrightarrow> reachable (fst (announce writable body s))"
| signals: "reachable s \<Longrightarrow> reachable (fst (signal writable target body s))"
| fires: "reachable s \<Longrightarrow> intervals s c \<noteq> None \<Longrightarrow> reachable (interval_fires writable c s)"

text \<open>
  What holds of the closure's state between any two callbacks: every connection object is
  stored once, has a running timer of 5000 ms and has been sent something, timers run for
  stored connections only, and whatever a response has been sent starts with \<open>accept\<close>.
\<close>

definition consistent :: "rendezvous \<Rightarrow> bool" where
  "consistent s \<longleftrightarrow>
     distinct (map res (connections s)) \<and>
     (\<forall>c \<in> set (connections s). res c < fresh s) \<and>
     dom (intervals s) = set (connections s) \<and>
     (\<forall>c \<in> set (connections s). intervals s c = Some 5000) \<and>
     (\<forall>(r, p) \<in> set (wire s). r < fresh s) \<and>
     (\<forall>r. sent_to r (wire s) = [] \<or> hd (sent_to r (wire s)) = Accept) \<and>
     (\<forall>c \<in> set (connections s). sent_to (res c) (wire s) \<noteq> [])"


section \<open>The reload broadcast (\<open>watcher.onProcessingComplete\<close>)\<close>

text \<open>
  \<open>wss.clients\<close> is the WebSocket server's own set of clients, kept in insertion order;
  the server's code only reads it. A client is its socket object and the \<open>readyState\<close>
  the socket reports. \<open>sent\<close> lists the messages handed to \<open>client.send\<close>, in order.
\<close>

datatype ready_state = CONNECTING | OPEN | CLOSING | CLOSED

record client =
  socket :: nat
  readyState :: ready_state

record reload =
  clients :: "client list"
  sent :: "(client \<times> string) list"

definition send :: "client \<Rightarrow> string \<Rightarrow> reload \<Rightarrow> reload" where
  "send c m s = s\<lparr>sent := sent s @ [(c, m)]\<rparr>"

text \<open>\<open>JSON.stringify({ type: 'update' })\<close>.\<close>

definition update_json :: string where
  \<open>update_json = ''{"type":"update"}''\<close>

text \<open>
  The callback pushed on \<open>watcher.onProcessingComplete\<close>. It does not change the set, so
  \<open>Set.prototype.forEach\<close> visits every member once, in insertion order.
\<close>

definition onProcessingComplete :: "reload \<Rightarrow> reload" where
  "onProcessingComplete s =
     fold (\<lambda>client s.
             if readyState client = OPEN
             then send client update_json (send client ''update'' s)
             else s)
       (clients s) s"

text \<open>The messages handed to one client between two states.\<close>

definition received :: "client \<Rightarrow> reload \<Rightarrow> reload \<Rightarrow> string list" where
  "received c s s' = map snd (filter (\<lambda>(c', m). c' = c) (drop (length (sent s)) (sent s')))"

section \<open>Startup (\<open>Preview.startServer\<close>)\<close>

text \<open>
  What \<open>startServer\<close> finds outside itself: the outcome of
  \<open>portfinder.getPortPromise()\<close> (\<open>None\<close> when it rejects), whether
  \<open>watcher.initialMappingsReady\<close> resolves, the \<open>watch\<close> flag of the constructor, which
  of the three directories exist, and whether the HTTP server reports \<open>error\<close> after
  \<open>listen\<close>.
\<close>

record environment =
  getPortPromise :: "nat option"
  initialMappingsReady :: bool
  watch :: bool
  npmModulesPath :: bool
  dclEcsPath :: bool
  dclApiPath :: bool
  listenError :: bool

datatype error = ScanError | PREVIEW_ERROR | ListenError

text \<open>What \<open>startServer\<close> does that others can see, in order.\<close>

datatype effect =
    SpinnerCreate
  | SpinnerSucceed
  | SpinnerFail
  | WatcherWatch
  | EmitReady nat
  | Listen nat

text \<open>
  Modelled from the spec: \<open>fail\<close> of \<open>utils/errors\<close> is not among the sources. A
  fatal startup error is reported at once and the server does not start: \<open>fail\<close> raises.
\<close>

definition fail :: "error \<Rightarrow> effect list \<Rightarrow> effect list \<times> (error + unit)" where
  "fail e sofar = (sofar, Inl e)"

text \<open>
  The \<open>port\<close> argument is a JavaScript number; \<open>None\<close> stands for \<open>undefined\<close> and
  \<open>NaN\<close>. Those and \<open>0\<close> are the values \<open>!resolvedPort\<close> holds for.
\<close>

definition truthy :: "nat option \<Rightarrow> bool" where
  "truthy port = (case port of None \<Rightarrow> False | Some p \<Rightarrow> p \<noteq> 0)"

definition resolvePort :: "nat option \<Rightarrow> nat option \<Rightarrow> nat" where
  "resolvePort port found =
     (case port of
        Some p \<Rightarrow>
          if p \<noteq> 0 then p
          else (case found of Some q \<Rightarrow> q | None \<Rightarrow> 2044)
      | None \<Rightarrow> (case found of Some q \<Rightarrow> q | None \<Rightarrow> 2044))"

text \<open>
  \<open>startServer\<close>, with the effects so far and how the returned promise settles:
  \<open>Inl\<close> an exception or rejection, \<open>Inr\<close> the server ran until it was closed.
\<close>

definition startServer :: "nat option \<Rightarrow> environment \<Rightarrow> effect list \<times> (error + unit)" where
  "startServer port env =
     (let resolvedPort = resolvePort port (getPortPromise env) in
      if \<not> initialMappingsReady env then ([SpinnerCreate, SpinnerFail], Inl ScanError)
      else
        let sofar = [SpinnerCreate, SpinnerSucceed] @ (if watch env then [WatcherWatch] else [])
        in if \<not> npmModulesPath env then fail PREVIEW_ERROR sofar
           else if \<not> (if dclEcsPath env then dclEcsPath env else dclApiPath env)
           then fail PREVIEW_ERROR sofar
           else (sofar @ [EmitReady resolvedPort, Listen resolvedPort],
                 if listenError env then Inl ListenError else Inr ()))"

section \<open>Concrete inputs\<close>

text \<open>Sockets: every write goes through, or only the writes to response 0 throw.\<close>

definition all_writable :: "nat \<Rightarrow> bool" where
  "all_writable r = True"

definition first_broken :: "nat \<Rightarrow> bool" where
  "first_broken r = (r \<noteq> 0)"

text \<open>Two listeners under the same uuid, and two under different ones.\<close>

definition listeners_X_X :: rendezvous where
  "listeners_X_X = listen all_writable ''X'' (listen all_writable ''X'' initial)"

definition listeners_B_C :: rendezvous where
  "listeners_B_C = listen all_writable ''C'' (listen all_writable ''B'' initial)"

definition signal_body :: jvalue where
  "signal_body =
     JObj [(''initiator'', JBool True), (''data'', JObj [(''foo'', JNum 1)]),
           (''uuid'', JStr ''P'')]"

definition announce_body :: jvalue where
  "announce_body = JObj [(''uuid'', JStr ''A'')]"

text \<open>Reload clients, one open and one closed.\<close>

definition open_client :: client where
  "open_client = \<lparr>socket = 0, readyState = OPEN\<rparr>"

definition closed_client :: client where
  "closed_client = \<lparr>socket = 1, readyState = CLOSED\<rparr>"

definition two_clients :: reload where
  "two_clients = \<lparr>clients = [open_client, closed_client], sent = []\<rparr>"

text \<open>A project that is complete, on a machine where the port asked for is taken.\<close>

definition port_taken :: environment where
  "port_taken =
     \<lparr>getPortPromise = Some 8000, initialMappingsReady = True, watch = False,
      npmModulesPath = True, dclEcsPath = True, dclApiPath = False, listenError = True\<rparr>"

definition no_free_port :: environment where
  "no_free_port =
     \<lparr>getPortPromise = None, initialMappingsReady = True, watch = True,
      npmModulesPath = True, dclEcsPath = False, dclApiPath = True, listenError = False\<rparr>"

section \<open>Arrays: \<open>indexOf\<close>, \<open>splice\<close> and \<open>forEach\<close>\<close>

lemma indexOf_absent: "x \<notin> set xs \<Longrightarrow> indexOf xs x = - 1"
  by (induction xs) (auto simp: Let_def)

lemma indexOf_range: "x \<in> set xs \<Longrightarrow> 0 \<le> indexOf xs x \<and> indexOf xs x < int (length xs)"
  by (induction xs) (auto simp: Let_def)

lemma splice_at: "0 \<le> i \<Longrightarrow> i < int (length xs) \<Longrightarrow> splice i 1 xs = take (nat i) xs @ drop (Suc (nat i)) xs"
  by (auto simp: splice_def Let_def min_def max_def nat_add_distrib)

lemma splice_indexOf_present: "x \<in> set xs \<Longrightarrow> splice (indexOf xs x) 1 xs = remove1 x xs"
proof (induction xs)
  case Nil
  then show ?case by simp
next
  case (Cons y ys)
  show ?case
  proof (cases "y = x")
    case True
    then show ?thesis by (simp add: splice_def)
  next
    case False
    with Cons.prems have mem: "x \<in> set ys" by simp
    from indexOf_range [OF mem] have r: "0 \<le> indexOf ys x" "indexOf ys x < int (length ys)" by auto
    have "splice (indexOf (y # ys) x) 1 (y # ys) = y # splice (indexOf ys x) 1 ys"
      using False r by (simp add: splice_at Let_def nat_add_distrib)
    with Cons.IH [OF mem] False show ?thesis by simp
  qed
qed

lemma splice_minus_one: "splice (- 1) 1 xs = butlast xs"
  by (cases xs rule: rev_cases) (auto simp: splice_def Let_def butlast_conv_take)

lemma splice_indexOf_absent: "x \<notin> set xs \<Longrightarrow> splice (indexOf xs x) 1 xs = butlast xs"
  by (simp add: indexOf_absent splice_minus_one)

lemma forEach_from_invariant:
  assumes "P s" and "\<And>c s. P s \<Longrightarrow> c \<in> set (arr s) \<Longrightarrow> P (f c s)"
  shows "P (forEach_from arr f k len s)"
  using assms
proof (induction arr f k len s rule: forEach_from.induct)
  case (1 arr f k len s)
  show ?case
  proof (cases "k < len")
    case True
    have step: "P (if k < length (arr s) then f (arr s ! k) s else s)"
      using "1.prems" by simp
    have "P (forEach_from arr f (Suc k) len (if k < length (arr s) then f (arr s ! k) s else s))"
      using "1.IH" [OF True step] "1.prems"(2) by blast
    with True show ?thesis
      by (subst forEach_from.simps) simp
  next
    case False
    with "1.prems" show ?thesis by (subst forEach_from.simps) simp
  qed
qed

lemma forEach_invariant:
  assumes "P s" and "\<And>c s. P s \<Longrightarrow> c \<in> set (arr s) \<Longrightarrow> P (f c s)"
  shows "P (forEach arr f s)"
  unfolding forEach_def using assms by (rule forEach_from_invariant)

lemma sent_to_append: "sent_to r (w @ w') = sent_to r w @ sent_to r w'"
  by (simp add: sent_to_def)

lemma sent_to_single: "sent_to r [(r', p)] = (if r' = r then [p] else [])"
  by (simp add: sent_to_def)

lemma sent_to_fresh: "\<forall>(r, p) \<in> set w. r < n \<Longrightarrow> sent_to n w = []"
  by (auto simp: sent_to_def filter_empty_conv)

lemma distinct_res: "distinct (map res cs) \<Longrightarrow> distinct cs"
  by (simp add: distinct_map)

lemma distinct_map_remove: "distinct (map f xs) \<Longrightarrow> distinct (map f (remove1 x xs))"
proof (induction xs)
  case Nil
  then show ?case by simp
next
  case (Cons y ys)
  have "set (remove1 x ys) \<subseteq> set ys" by (rule set_remove1_subset)
  with Cons show ?case by auto
qed

lemma sseSend_ok:
  "writable (res c) \<Longrightarrow> sseSend writable c p s = s\<lparr>wire := wire s @ [(res c, p)]\<rparr>"
  by (simp add: sseSend_def)

lemma sseSend_fail_member:
  assumes "\<not> writable (res c)" and "c \<in> set (connections s)"
  shows "sseSend writable c p s =
           s\<lparr>connections := remove1 c (connections s), intervals := (intervals s)(c := None)\<rparr>"
  using assms by (simp add: sseSend_def clearInterval_def splice_indexOf_present)

lemma sseSend_fail_absent:
  assumes "\<not> writable (res c)" and "c \<notin> set (connections s)"
  shows "sseSend writable c p s =
           s\<lparr>connections := butlast (connections s), intervals := (intervals s)(c := None)\<rparr>"
  using assms by (simp add: sseSend_def clearInterval_def splice_indexOf_absent)

lemma consistent_sseSend:
  assumes "consistent s" and "c \<in> set (connections s)"
  shows "consistent (sseSend writable c p s)"
proof (cases "writable (res c)")
  case True
  have ne: "sent_to (res c) (wire s) \<noteq> []" using assms by (simp add: consistent_def)
  have "\<forall>r. sent_to r (wire s @ [(res c, p)]) = [] \<or> hd (sent_to r (wire s @ [(res c, p)])) = Accept"
  proof
    fix r
    have old: "sent_to r (wire s) = [] \<or> hd (sent_to r (wire s)) = Accept"
      using assms(1) by (simp add: consistent_def)
    show "sent_to r (wire s @ [(res c, p)]) = [] \<or> hd (sent_to r (wire s @ [(res c, p)])) = Accept"
      using old ne by (auto simp: sent_to_append sent_to_single)
  qed
  moreover have "\<forall>c' \<in> set (connections s). sent_to (res c') (wire s @ [(res c, p)]) \<noteq> []"
    using assms(1) by (simp add: consistent_def sent_to_append)
  moreover have "\<forall>(r, q) \<in> set (wire s @ [(res c, p)]). r < fresh s"
    using assms by (auto simp: consistent_def)
  ultimately show ?thesis
    using assms(1) True by (simp add: sseSend_ok consistent_def)
next
  case False
  have d: "distinct (connections s)" using assms(1) by (simp add: consistent_def distinct_res)
  have "distinct (map res (remove1 c (connections s)))"
    using assms(1) by (simp add: consistent_def distinct_map_remove)
  moreover have "dom ((intervals s)(c := None)) = set (remove1 c (connections s))"
    using assms(1) d by (auto simp: consistent_def)
  moreover have "\<forall>c' \<in> set (remove1 c (connections s)). ((intervals s)(c := None)) c' = Some 5000"
    using assms(1) d by (auto simp: consistent_def)
  ultimately show ?thesis
    using assms False d by (simp add: sseSend_fail_member consistent_def)
qed


lemma consistent_initial: "consistent initial"
  by (simp add: consistent_def initial_def sent_to_def)

lemma listen_ok:
  assumes "writable (fresh s)"
  shows "listen writable u s =
           s\<lparr>fresh := Suc (fresh s),
             intervals := (intervals s)(\<lparr>uuid = u, res = fresh s\<rparr> \<mapsto> 5000),
             connections := connections s @ [\<lparr>uuid = u, res = fresh s\<rparr>],
             wire := wire s @ [(fresh s, Accept)]\<rparr>"
  using assms by (simp add: listen_def sse_def setInterval_def sseSend_def Let_def)

lemma listen_fail:
  assumes "\<not> writable (fresh s)" and "consistent s"
  shows "listen writable u s = s\<lparr>fresh := Suc (fresh s)\<rparr>"
proof -
  let ?c = "\<lparr>uuid = u, res = fresh s\<rparr>"
  have notin: "?c \<notin> set (connections s)"
    using assms(2) by (auto simp: consistent_def)
  then have nodom: "intervals s ?c = None"
    using assms(2) by (auto simp: consistent_def)
  have "splice (indexOf (connections s @ [?c]) ?c) 1 (connections s @ [?c]) = connections s"
    using notin by (simp add: splice_indexOf_present remove1_append)
  moreover have "(intervals s)(?c := None) = intervals s"
    using nodom by (rule fun_upd_idem)
  ultimately show ?thesis
    using assms(1) by (simp add: listen_def sse_def setInterval_def sseSend_def clearInterval_def Let_def)
qed

lemma consistent_listen:
  assumes "consistent s"
  shows "consistent (listen writable u s)"
proof (cases "writable (fresh s)")
  case True
  let ?c = "\<lparr>uuid = u, res = fresh s\<rparr>"
  have old: "\<forall>(r, p) \<in> set (wire s). r < fresh s" using assms by (simp add: consistent_def)
  have none: "sent_to (fresh s) (wire s) = []" using old by (rule sent_to_fresh)
  have notin: "?c \<notin> set (connections s)" using assms by (auto simp: consistent_def)
  have r: "\<forall>c \<in> set (connections s). res c \<noteq> fresh s" using assms by (auto simp: consistent_def)
  have 1: "distinct (map res (connections s @ [?c]))"
    using assms by (auto simp: consistent_def)
  have 2: "\<forall>c \<in> set (connections s @ [?c]). res c < Suc (fresh s)"
    using assms by (auto simp: consistent_def less_Suc_eq)
  have 3: "dom ((intervals s)(?c \<mapsto> 5000)) = set (connections s @ [?c])"
    using assms by (auto simp: consistent_def)
  have 4: "\<forall>c \<in> set (connections s @ [?c]). ((intervals s)(?c \<mapsto> 5000)) c = Some 5000"
    using assms by (auto simp: consistent_def)
  have 5: "\<forall>(r, p) \<in> set (wire s @ [(fresh s, Accept)]). r < Suc (fresh s)"
    using old by (auto simp: less_Suc_eq)
  have 6: "\<forall>r. sent_to r (wire s @ [(fresh s, Accept)]) = []
               \<or> hd (sent_to r (wire s @ [(fresh s, Accept)])) = Accept"
  proof
    fix r
    have "sent_to r (wire s) = [] \<or> hd (sent_to r (wire s)) = Accept"
      using assms by (simp add: consistent_def)
    then show "sent_to r (wire s @ [(fresh s, Accept)]) = []
               \<or> hd (sent_to r (wire s @ [(fresh s, Accept)])) = Accept"
      using none by (auto simp: sent_to_append sent_to_single)
  qed
  have 7: "\<forall>c \<in> set (connections s @ [?c]). sent_to (res c) (wire s @ [(fresh s, Accept)]) \<noteq> []"
    using assms by (auto simp: consistent_def sent_to_append sent_to_single)
  show ?thesis
    unfolding listen_ok [of writable s u, OF True] consistent_def using 1 2 3 4 5 6 7 by simp
next
  case False
  have "consistent (s\<lparr>fresh := Suc (fresh s)\<rparr>)"
    using assms by (auto simp: consistent_def less_Suc_eq)
  then show ?thesis by (simp add: listen_fail [of writable s u, OF False assms])
qed

lemma consistent_announce:
  assumes "consistent s"
  shows "consistent (fst (announce writable body s))"
  unfolding announce_def Let_def fst_conv
  by (rule forEach_invariant [where P = consistent]) (simp_all add: assms consistent_sseSend)

lemma signal_state:
  "fst (signal writable target body s) =
     snd (forEach (\<lambda>(result, s). connections s)
            (\<lambda>c (result, s).
               if uuid c = target
               then (True, sseSend writable c
                       (Signal (getProp body ''initiator'') (getProp body ''data'')
                          (getProp body ''uuid'')) s)
               else (result, s))
            (False, s))"
  by (simp add: signal_def Let_def split_beta)

lemma consistent_signal:
  assumes "consistent s"
  shows "consistent (fst (signal writable target body s))"
  unfolding signal_state
  by (rule forEach_invariant [where P = "\<lambda>x. consistent (snd x)"])
     (auto simp: assms consistent_sseSend)

lemma consistent_fires:
  assumes "consistent s" and "intervals s c \<noteq> None"
  shows "consistent (interval_fires writable c s)"
proof -
  from assms have "c \<in> set (connections s)" by (auto simp: consistent_def)
  with assms show ?thesis
    by (auto simp: interval_fires_def consistent_sseSend)
qed

lemma reachable_consistent: "reachable s \<Longrightarrow> consistent s"
  by (induction rule: reachable.induct)
     (simp_all add: consistent_initial consistent_listen consistent_announce
        consistent_signal consistent_fires)


section \<open>Who is handed what on a settle\<close>

lemma fold_sent:
  "sent (fold (\<lambda>client s. if readyState client = OPEN
                  then send client update_json (send client ''update'' s) else s) cs s)
     = sent s @ concat (map (\<lambda>c. if readyState c = OPEN
                                 then [(c, ''update''), (c, update_json)] else []) cs)"
  by (induction cs arbitrary: s) (simp_all add: send_def)

lemma fold_clients:
  "clients (fold (\<lambda>client s. if readyState client = OPEN
                  then send client update_json (send client ''update'' s) else s) cs s)
     = clients s"
  by (induction cs arbitrary: s) (simp_all add: send_def)

lemma received_settle:
  "received c s (onProcessingComplete s) =
     concat (map (\<lambda>c'. if c' = c \<and> readyState c' = OPEN then [''update'', update_json] else [])
               (clients s))"
proof -
  have "map snd (filter (\<lambda>(c', m). c' = c)
          (concat (map (\<lambda>c. if readyState c = OPEN
                                 then [(c, ''update''), (c, update_json)] else []) cs)))
        = concat (map (\<lambda>c'. if c' = c \<and> readyState c' = OPEN then [''update'', update_json] else []) cs)"
    for cs
    by (induction cs) simp_all
  then show ?thesis
    by (simp add: received_def onProcessingComplete_def fold_sent)
qed

lemma received_not_open:
  "readyState c \<noteq> OPEN \<Longrightarrow> received c s (onProcessingComplete s) = []"
proof -
  have "readyState c \<noteq> OPEN \<Longrightarrow>
          concat (map (\<lambda>c'. if c' = c \<and> readyState c' = OPEN then [''update'', update_json] else []) cs) = []"
    for cs
    by (induction cs) auto
  then show "readyState c \<noteq> OPEN \<Longrightarrow> received c s (onProcessingComplete s) = []"
    by (simp add: received_settle)
qed

lemma concat_single:
  "distinct cs \<Longrightarrow> c \<in> set cs \<Longrightarrow>
     concat (map (\<lambda>c'. if c' = c \<and> P c' then ms else []) cs) = (if P c then ms else [])"
proof (induction cs)
  case Nil
  then show ?case by simp
next
  case (Cons a cs)
  have none: "c \<notin> set cs \<Longrightarrow> concat (map (\<lambda>c'. if c' = c \<and> P c' then ms else []) cs) = []"
    by (induction cs) auto
  show ?case
  proof (cases "a = c")
    case True
    with Cons.prems none show ?thesis by simp
  next
    case False
    with Cons show ?thesis by simp
  qed
qed

text \<open>
  C5. When the settle callback runs, every registered client whose socket reports \<open>OPEN\<close>
  is handed the message \<open>{"type":"update"}\<close>, whose \<open>type\<close> marks it as an update, and a
  registered client whose socket is not open is handed nothing.
\<close>

theorem C5_settle_reaches_open_clients_only:
  assumes "c \<in> set (clients s)"
  shows "(readyState c = OPEN \<longrightarrow> update_json \<in> set (received c s (onProcessingComplete s)))
       \<and> (readyState c \<noteq> OPEN \<longrightarrow> received c s (onProcessingComplete s) = [])"
proof -
  have "readyState c = OPEN \<Longrightarrow> c \<in> set cs \<Longrightarrow>
          update_json \<in> set (concat (map (\<lambda>c'. if c' = c \<and> readyState c' = OPEN
                                              then [''update'', update_json] else []) cs))"
    for cs
    by (induction cs) auto
  then have "readyState c = OPEN \<Longrightarrow>
          update_json \<in> set (received c s (onProcessingComplete s))"
    using assms by (simp add: received_settle)
  then show ?thesis
    using received_not_open [of c s] by blast
qed

theorem C5_witness:
  "open_client \<in> set (clients two_clients)
   \<and> readyState open_client = OPEN
   \<and> update_json \<in> set (received open_client two_clients (onProcessingComplete two_clients))
   \<and> closed_client \<in> set (clients two_clients)
   \<and> readyState closed_client \<noteq> OPEN
   \<and> received closed_client two_clients (onProcessingComplete two_clients) = []"
  using C5_settle_reaches_open_clients_only [of open_client two_clients]
        C5_settle_reaches_open_clients_only [of closed_client two_clients]
  by (simp add: two_clients_def open_client_def closed_client_def)

text \<open>
  C9. On every settle, a registered client whose socket is open is handed exactly two
  messages, in this order: the text \<open>update\<close>, then the text \<open>{"type":"update"}\<close>.
  (\<open>wss.clients\<close> is a set: it holds each client once.)
\<close>

theorem C9_two_messages_per_open_client:
  assumes "distinct (clients s)" and "c \<in> set (clients s)" and "readyState c = OPEN"
  shows "received c s (onProcessingComplete s) = [''update'', update_json]"
  using assms by (simp add: received_settle concat_single)

theorem C9_witness:
  "distinct (clients two_clients)
   \<and> open_client \<in> set (clients two_clients)
   \<and> readyState open_client = OPEN
   \<and> received open_client two_clients (onProcessingComplete two_clients)
        = [''update'', update_json]"
proof -
  have d: "distinct (clients two_clients)"
    by (simp add: two_clients_def open_client_def closed_client_def)
  have m: "open_client \<in> set (clients two_clients)"
    by (simp add: two_clients_def)
  have r: "readyState open_client = OPEN"
    by (simp add: open_client_def)
  from C9_two_messages_per_open_client [OF d m r] d m r show ?thesis by simp
qed

text \<open>
  C6 as stated does not hold: a registered client whose socket reports \<open>CLOSED\<close> is
  still registered after the broadcast.
\<close>

theorem C6_counterexample:
  "readyState closed_client = CLOSED
   \<and> closed_client \<in> set (clients two_clients)
   \<and> closed_client \<in> set (clients (onProcessingComplete two_clients))"
  by (simp add: closed_client_def two_clients_def onProcessingComplete_def send_def
        open_client_def)

text \<open>
  C6, amended. The broadcast leaves the registered set as it was; a client whose socket is
  not open is passed over and handed nothing.
\<close>

theorem C6_broadcast_drops_nobody:
  "clients (onProcessingComplete s) = clients s
   \<and> (readyState c \<noteq> OPEN \<longrightarrow> received c s (onProcessingComplete s) = [])"
proof -
  have "clients (onProcessingComplete s) = clients s"
    by (simp add: onProcessingComplete_def fold_clients)
  then show ?thesis
    using received_not_open [of c s] by blast
qed

theorem C6_witness:
  "clients (onProcessingComplete two_clients) = [open_client, closed_client]
   \<and> readyState closed_client \<noteq> OPEN
   \<and> received closed_client two_clients (onProcessingComplete two_clients) = []"
  using C6_broadcast_drops_nobody [of two_clients closed_client]
  by (simp add: two_clients_def closed_client_def)

section \<open>The order of startup\<close>

text \<open>
  A failed initial scan ends startup with nothing emitted and no \<open>listen\<close>; \<open>listen\<close>
  comes only after a scan that succeeded, directly after the one \<open>preview:ready\<close>.
\<close>

lemma startServer_scan_failed:
  "\<not> initialMappingsReady env \<Longrightarrow>
     startServer port env = ([SpinnerCreate, SpinnerFail], Inl ScanError)"
  by (simp add: startServer_def)

lemma startServer_listens_after_scan:
  assumes "Listen n \<in> set (fst (startServer port env))"
  shows "initialMappingsReady env
       \<and> (\<exists>before. fst (startServer port env) = before @ [EmitReady n, Listen n]
             \<and> SpinnerSucceed \<in> set before
             \<and> (\<forall>m. EmitReady m \<notin> set before \<and> Listen m \<notin> set before))"
  using assms
  by (auto simp: startServer_def fail_def Let_def split: if_splits)

lemma startServer_one_ready:
  "length (filter (\<lambda>e. \<exists>m. e = EmitReady m) (fst (startServer port env))) \<le> 1"
  by (auto simp: startServer_def fail_def Let_def)

text \<open>
  C7. With port 8000 asked for and taken, \<open>preview:ready\<close> has been emitted with 8000
  before \<open>listen\<close> is called, and the server then fails to listen: the supervisor is told
  "ready" by a server that never accepts a request.
\<close>

theorem C7_ready_emitted_before_listening:
  "startServer (Some 8000) port_taken
     = ([SpinnerCreate, SpinnerSucceed, EmitReady 8000, Listen 8000], Inl ListenError)"
  by (simp add: startServer_def port_taken_def resolvePort_def fail_def)

text \<open>
  C8. A port the caller supplies (a number other than 0) is the resolved port; with none
  supplied it is the port the pool finds; and the port is 2044 when the pool finds none.
  Whatever the pool does, startup goes on past port resolution, and the port listened on
  is the resolved one.
\<close>

theorem C8_port_resolution:
  "(p \<noteq> 0 \<longrightarrow> resolvePort (Some p) found = p)
   \<and> (\<not> truthy port \<longrightarrow> resolvePort port (Some q) = q)
   \<and> (\<not> truthy port \<longrightarrow> resolvePort port None = 2044)
   \<and> hd (fst (startServer port env)) = SpinnerCreate
   \<and> (Listen n \<in> set (fst (startServer port env)) \<longrightarrow> n = resolvePort port (getPortPromise env))"
  by (auto simp: resolvePort_def truthy_def startServer_def fail_def Let_def
        split: option.splits if_splits)

theorem C8_witness:
  "resolvePort (Some 3000) None = 3000
   \<and> \<not> truthy None \<and> resolvePort None (Some 8000) = 8000
   \<and> \<not> truthy (Some 0) \<and> resolvePort (Some 0) None = 2044
   \<and> Listen 2044 \<in> set (fst (startServer None no_free_port))"
  using C8_port_resolution [of 3000 None None 8000 no_free_port 2044]
        C8_port_resolution [of 3000 None "Some 0" 8000 no_free_port 2044]
  by (simp add: truthy_def startServer_def no_free_port_def resolvePort_def fail_def)

section \<open>The handlers when no write fails, and the status of a signal\<close>

text \<open>
  As long as the array is not changed under it, \<open>forEach\<close> is a fold over the array.
  With every stored connection writable, an announce reaches every listener under
  another uuid and a signal every listener under the target, in the order stored. With
  or without failures, the status of a signal is 200 exactly when some stored connection
  is under the target, and an announce writes nothing to a listener under the
  announcer's uuid.
\<close>

lemma length_sseSend: "length (connections (sseSend writable c p s)) \<le> length (connections s)"
proof (cases "writable (res c)")
  case True
  then show ?thesis by (simp add: sseSend_ok)
next
  case False
  show ?thesis
  proof (cases "c \<in> set (connections s)")
    case True
    then show ?thesis
      by (simp add: sseSend_fail_member [of writable c s, OF False True] length_remove1)
  next
    case absent: False
    show ?thesis
      by (simp add: sseSend_fail_absent [of writable c s, OF False absent])
  qed
qed


lemma forEach_from_fixed:
  assumes "\<And>c s. c \<in> set A \<Longrightarrow> arr s = A \<Longrightarrow> arr (f c s) = A"
    and "arr s = A" and "len = length A" and "k \<le> len"
  shows "forEach_from arr f k len s = fold f (drop k A) s"
  using assms
proof (induction arr f k len s rule: forEach_from.induct)
  case (1 arr f k len s)
  show ?case
  proof (cases "k < len")
    case True
    then have kl: "k < length A" using "1.prems"(3) by simp
    let ?s' = "f (A ! k) s"
    have eq: "arr ?s' = A" using "1.prems"(1) [of "A ! k" s] "1.prems"(2) kl by simp
    have next_state: "(if k < length (arr s) then f (arr s ! k) s else s) = ?s'"
      using kl "1.prems"(2) by simp
    have sk: "Suc k \<le> len" using True by simp
    have "forEach_from arr f (Suc k) len ?s' = fold f (drop (Suc k) A) ?s'"
      using "1.IH" [OF True, unfolded next_state, OF "1.prems"(1) eq "1.prems"(3) sk] by blast
    then have "forEach_from arr f k len s = fold f (drop (Suc k) A) ?s'"
      using True next_state by (subst forEach_from.simps) (simp only: if_True)
    also have "\<dots> = fold f (drop k A) s"
      using kl by (simp add: Cons_nth_drop_Suc [symmetric])
    finally show ?thesis .
  next
    case False
    then have "drop k A = []" using "1.prems"(3,4) by simp
    then show ?thesis using False by (subst forEach_from.simps) simp
  qed
qed

lemma forEach_fixed:
  assumes "\<And>c s'. c \<in> set (arr s) \<Longrightarrow> arr s' = arr s \<Longrightarrow> arr (f c s') = arr s"
  shows "forEach arr f s = fold f (arr s) s"
proof -
  have "forEach_from arr f 0 (length (arr s)) s = fold f (drop 0 (arr s)) s"
    by (rule forEach_from_fixed [where A = "arr s"]) (simp_all add: assms)
  then show ?thesis by (simp add: forEach_def)
qed


lemma fold_send_all:
  assumes "\<forall>c \<in> set cs. writable (res c)"
  shows "fold (\<lambda>c s. if E c then sseSend writable c p s else s) cs s
           = s\<lparr>wire := wire s @ map (\<lambda>c. (res c, p)) (filter E cs)\<rparr>"
  using assms
proof (induction cs arbitrary: s)
  case Nil
  then show ?case by simp
next
  case (Cons a cs)
  then show ?case by (simp add: sseSend_ok)
qed

lemma announce_all_writable:
  assumes "\<forall>c \<in> set (connections s). writable (res c)"
  shows "fst (announce writable body s)
           = s\<lparr>wire := wire s @ map (\<lambda>c. (res c, Announce (getProp body ''uuid'')))
                               (filter (\<lambda>c. JStr (uuid c) \<noteq> getProp body ''uuid'')
                                  (connections s))\<rparr>"
proof -
  let ?p = "Announce (getProp body ''uuid'')"
  let ?f = "\<lambda>c s. if JStr (uuid c) \<noteq> getProp body ''uuid'' then sseSend writable c ?p s else s"
  have keep: "connections (?f c s') = connections s"
    if "c \<in> set (connections s)" and "connections s' = connections s" for c s'
    using that assms by (simp add: sseSend_ok)
  have "forEach connections ?f s = fold ?f (connections s) s"
    using keep by (rule forEach_fixed)
  then show ?thesis
    using fold_send_all [OF assms, of "\<lambda>c. JStr (uuid c) \<noteq> getProp body ''uuid''" ?p s]
    by (simp add: announce_def Let_def)
qed

lemma announce_status: "snd (announce writable body s) = 200"
  by (simp add: announce_def Let_def)


lemma fold_signal_all:
  assumes "\<forall>c \<in> set cs. writable (res c)"
  shows "fold (\<lambda>c (result, s). if uuid c = t then (True, sseSend writable c p s) else (result, s))
           cs (r, s)
         = (r \<or> (\<exists>c \<in> set cs. uuid c = t),
            s\<lparr>wire := wire s @ map (\<lambda>c. (res c, p)) (filter (\<lambda>c. uuid c = t) cs)\<rparr>)"
  using assms
proof (induction cs arbitrary: r s)
  case Nil
  then show ?case by simp
next
  case (Cons a cs)
  show ?case
  proof (cases "uuid a = t")
    case True
    with Cons show ?thesis by (simp add: sseSend_ok)
  next
    case False
    with Cons show ?thesis by simp
  qed
qed

lemma signal_all_writable:
  assumes "\<forall>c \<in> set (connections s). writable (res c)"
  shows "signal writable target body s
           = (s\<lparr>wire := wire s @ map (\<lambda>c. (res c, Signal (getProp body ''initiator'')
                                                  (getProp body ''data'') (getProp body ''uuid'')))
                                (filter (\<lambda>c. uuid c = target) (connections s))\<rparr>,
              if \<exists>c \<in> set (connections s). uuid c = target then 200 else 404)"
proof -
  let ?p = "Signal (getProp body ''initiator'') (getProp body ''data'') (getProp body ''uuid'')"
  let ?arr = "\<lambda>(result :: bool, s). connections s"
  let ?f = "\<lambda>c (result, s).
               if uuid c = target then (True, sseSend writable c ?p s) else (result, s)"
  have keep: "?arr (?f c x) = ?arr (False, s)"
    if "c \<in> set (?arr (False, s))" and "?arr x = ?arr (False, s)" for c x
    using that assms by (cases x) (simp add: sseSend_ok)
  have "forEach ?arr ?f (False, s) = fold ?f (?arr (False, s)) (False, s)"
    using keep by (rule forEach_fixed)
  then have "forEach ?arr ?f (False, s) = fold ?f (connections s) (False, s)"
    by simp
  then show ?thesis
    using fold_signal_all [OF assms, of target ?p False s]
    by (simp add: signal_def Let_def)
qed


lemma forEach_from_finds:
  assumes "\<And>c x. length (arr (f c x)) \<le> length (arr x)"
    and "\<And>c x. flag x \<Longrightarrow> flag (f c x)"
    and "\<And>c x. M c \<Longrightarrow> flag (f c x)"
    and "\<And>c x. \<not> M c \<Longrightarrow> f c x = x"
    and "length (arr x) \<le> len"
    and "flag x \<or> (\<exists>j. k \<le> j \<and> j < length (arr x) \<and> M (arr x ! j))"
  shows "flag (forEach_from arr f k len x)"
  using assms
proof (induction arr f k len x rule: forEach_from.induct)
  case (1 arr f k len x)
  show ?case
  proof (cases "k < len")
    case False
    have "flag x"
    proof (rule ccontr)
      assume "\<not> flag x"
      with "1.prems"(6) obtain j where "k \<le> j" "j < length (arr x)" by blast
      with "1.prems"(5) False show False by simp
    qed
    with False show ?thesis by (subst forEach_from.simps) simp
  next
    case True
    let ?x' = "if k < length (arr x) then f (arr x ! k) x else x"
    have len': "length (arr ?x') \<le> len"
      using "1.prems"(1) [of "arr x ! k" x] "1.prems"(5) by (simp split: if_splits)
    have pending: "flag ?x' \<or> (\<exists>j. Suc k \<le> j \<and> j < length (arr ?x') \<and> M (arr ?x' ! j))"
    proof (cases "flag x")
      case True
      then show ?thesis using "1.prems"(2) by simp
    next
      case False
      with "1.prems"(6) obtain j where j: "k \<le> j" "j < length (arr x)" "M (arr x ! j)"
        by blast
      then have kl: "k < length (arr x)" by simp
      show ?thesis
      proof (cases "M (arr x ! k)")
        case True
        then show ?thesis using kl "1.prems"(3) by simp
      next
        case False
        then have same: "?x' = x" using kl "1.prems"(4) by simp
        from False j have "j \<noteq> k" by blast
        with j have "Suc k \<le> j" by simp
        with j same show ?thesis by auto
      qed
    qed
    have "flag (forEach_from arr f (Suc k) len ?x')"
      using "1.IH" [OF True "1.prems"(1,2,3,4) len' pending] by blast
    with True show ?thesis by (subst forEach_from.simps) simp
  qed
qed

lemma signal_status:
  "snd (signal writable target body s)
     = (if \<exists>c \<in> set (connections s). uuid c = target then 200 else 404)"
proof -
  let ?p = "Signal (getProp body ''initiator'') (getProp body ''data'') (getProp body ''uuid'')"
  let ?arr = "\<lambda>(result :: bool, s). connections s"
  let ?f = "\<lambda>c (result, s).
               if uuid c = target then (True, sseSend writable c ?p s) else (result, s)"
  let ?end = "forEach ?arr ?f (False, s)"
  have status: "snd (signal writable target body s) = (if fst ?end then 200 else 404)"
    by (simp add: signal_def Let_def split_beta)
  show ?thesis
  proof (cases "\<exists>c \<in> set (connections s). uuid c = target")
    case True
    then obtain j where j: "j < length (connections s)" "uuid (connections s ! j) = target"
      by (auto simp: in_set_conv_nth)
    have "fst (forEach_from ?arr ?f 0 (length (?arr (False, s))) (False, s))"
    proof (rule forEach_from_finds [where M = "\<lambda>c. uuid c = target"])
      show "length (?arr (?f c x)) \<le> length (?arr x)" for c x
        by (cases x) (simp add: length_sseSend)
      show "fst x \<Longrightarrow> fst (?f c x)" for c x by (cases x) simp
      show "uuid c = target \<Longrightarrow> fst (?f c x)" for c x by (cases x) simp
      show "uuid c \<noteq> target \<Longrightarrow> ?f c x = x" for c x by (cases x) simp
      show "length (?arr (False, s)) \<le> length (?arr (False, s))" by simp
      show "fst (False, s) \<or> (\<exists>j. 0 \<le> j \<and> j < length (?arr (False, s))
              \<and> uuid (?arr (False, s) ! j) = target)"
        using j by auto
    qed
    then have "fst ?end" by (simp add: forEach_def)
    with True status show ?thesis by simp
  next
    case False
    have "?end = (False, s)"
      by (rule forEach_invariant [where P = "\<lambda>x. x = (False, s)"]) (use False in auto)
    with False status show ?thesis by simp
  qed
qed

lemma announce_not_to_self:
  assumes "consistent s" and "c \<in> set (connections s)"
    and "JStr (uuid c) = getProp body ''uuid''"
  shows "sent_to (res c) (wire (fst (announce writable body s))) = sent_to (res c) (wire s)"
proof -
  let ?p = "Announce (getProp body ''uuid'')"
  let ?f = "\<lambda>c s. if JStr (uuid c) \<noteq> getProp body ''uuid'' then sseSend writable c ?p s else s"
  let ?P = "\<lambda>s'. set (connections s') \<subseteq> set (connections s)
                \<and> sent_to (res c) (wire s') = sent_to (res c) (wire s)"
  have inj: "inj_on res (set (connections s))"
    using assms(1) by (simp add: consistent_def distinct_map)
  have step: "?P (?f d s')" if P: "?P s'" and d: "d \<in> set (connections s')" for d s'
  proof (cases "JStr (uuid d) \<noteq> getProp body ''uuid''")
    case False
    with P show ?thesis by simp
  next
    case True
    with assms(3) have "d \<noteq> c" by auto
    moreover have "d \<in> set (connections s)" using P d by blast
    ultimately have r: "res d \<noteq> res c" using inj assms(2) by (auto dest: inj_onD)
    show ?thesis
    proof (cases "writable (res d)")
      case w: True
      with True P r show ?thesis by (simp add: sseSend_ok sent_to_append sent_to_single)
    next
      case w: False
      have "set (remove1 d (connections s')) \<subseteq> set (connections s')"
        by (rule set_remove1_subset)
      with True P show ?thesis
        by (auto simp: sseSend_fail_member [of writable d s', OF w d])
    qed
  qed
  have "?P (forEach connections ?f s)"
    by (rule forEach_invariant [where P = ?P]) (simp, rule step)
  then show ?thesis by (simp add: announce_def Let_def)
qed

section \<open>The rendezvous on concrete inputs\<close>

text \<open>
  C1. Two listeners under \<open>X\<close>; the write to the first throws. The first is evicted inside
  the loop, the second moves to its index, and the loop goes on to the next index: the
  second listener, whose socket is fine, is never sent the signal. The status is 200.
\<close>

theorem C1_signal_skips_listener_after_failed_send:
  "connections listeners_X_X = [\<lparr>uuid = ''X'', res = 0\<rparr>, \<lparr>uuid = ''X'', res = 1\<rparr>]
   \<and> first_broken 1
   \<and> sent_to 1 (wire (fst (signal first_broken ''X'' signal_body listeners_X_X))) = [Accept]
   \<and> connections (fst (signal first_broken ''X'' signal_body listeners_X_X))
        = [\<lparr>uuid = ''X'', res = 1\<rparr>]
   \<and> snd (signal first_broken ''X'' signal_body listeners_X_X) = 200"
  by code_simp

text \<open>
  C2. Listeners under \<open>B\<close> and \<open>C\<close>, an announce from \<open>A\<close>; the write to the first
  throws. As for the signal, the second listener is passed over: it is never sent the
  announce.
\<close>

theorem C2_announce_skips_listener_after_failed_send:
  "connections listeners_B_C = [\<lparr>uuid = ''B'', res = 0\<rparr>, \<lparr>uuid = ''C'', res = 1\<rparr>]
   \<and> first_broken 1
   \<and> sent_to 1 (wire (fst (announce first_broken announce_body listeners_B_C))) = [Accept]
   \<and> connections (fst (announce first_broken announce_body listeners_B_C))
        = [\<lparr>uuid = ''C'', res = 1\<rparr>]
   \<and> snd (announce first_broken announce_body listeners_B_C) = 200"
  by code_simp

text \<open>
  C10. A failed send on a connection that is no longer stored looks it up at index
  \<open>-1\<close> and so removes the last stored connection: evicting twice is not evicting once.
\<close>

theorem C10_failed_send_on_absent_connection_drops_last:
  assumes "c \<notin> set (connections s)" and "\<not> writable (res c)"
  shows "indexOf (connections s) c = - 1
       \<and> connections (sseSend writable c p s) = butlast (connections s)"
  using assms by (simp add: indexOf_absent sseSend_fail_absent)

theorem C10_witness:
  "connections listeners_B_C = [\<lparr>uuid = ''B'', res = 0\<rparr>, \<lparr>uuid = ''C'', res = 1\<rparr>]
   \<and> connections (sseSend first_broken \<lparr>uuid = ''B'', res = 0\<rparr> Ping listeners_B_C)
        = [\<lparr>uuid = ''C'', res = 1\<rparr>]
   \<and> \<lparr>uuid = ''B'', res = 0\<rparr>
        \<notin> set (connections (sseSend first_broken \<lparr>uuid = ''B'', res = 0\<rparr> Ping listeners_B_C))
   \<and> \<not> first_broken (res \<lparr>uuid = ''B'', res = 0\<rparr>)
   \<and> connections (sseSend first_broken \<lparr>uuid = ''B'', res = 0\<rparr> Ping
        (sseSend first_broken \<lparr>uuid = ''B'', res = 0\<rparr> Ping listeners_B_C)) = []"
proof -
  have 1: "connections listeners_B_C = [\<lparr>uuid = ''B'', res = 0\<rparr>, \<lparr>uuid = ''C'', res = 1\<rparr>]"
    by (simp add: listeners_B_C_def all_writable_def listen_ok initial_def)
  have 2: "connections (sseSend first_broken \<lparr>uuid = ''B'', res = 0\<rparr> Ping listeners_B_C)
        = [\<lparr>uuid = ''C'', res = 1\<rparr>]"
    by (simp add: sseSend_fail_member 1 first_broken_def)
  have 3: "\<lparr>uuid = ''B'', res = 0\<rparr>
        \<notin> set (connections (sseSend first_broken \<lparr>uuid = ''B'', res = 0\<rparr> Ping listeners_B_C))"
    by (simp add: 2)
  have 4: "\<not> first_broken (res \<lparr>uuid = ''B'', res = 0\<rparr>)"
    by (simp add: first_broken_def)
  from C10_failed_send_on_absent_connection_drops_last
         [where writable = first_broken and p = Ping, OF 3 4] 1 2 3 4
  show ?thesis by simp
qed

section \<open>Eviction and keep-alive\<close>













lemma listeners_B_C_state:
  "listeners_B_C =
     \<lparr>connections = [\<lparr>uuid = ''B'', res = 0\<rparr>, \<lparr>uuid = ''C'', res = 1\<rparr>],
      intervals = [\<lparr>uuid = ''B'', res = 0\<rparr> \<mapsto> 5000, \<lparr>uuid = ''C'', res = 1\<rparr> \<mapsto> 5000],
      wire = [(0, Accept), (1, Accept)],
      fresh = 2\<rparr>"
  by (simp add: listeners_B_C_def all_writable_def listen_ok initial_def numeral_2_eq_2)

lemma reachable_listeners_B_C: "reachable listeners_B_C"
  unfolding listeners_B_C_def by (intro reachable.listens reachable.start)



text \<open>
  C3. In every state the server can reach: a \<open>listen\<close> whose write goes through writes
  \<open>accept\<close> as the first frame of the new response, stores the connection and has its
  timer running with a period of 5000 ms; whatever any response has been sent starts with
  \<open>accept\<close>; and every stored connection has its 5000 ms timer running, each firing of
  which writes a \<open>ping\<close> to it.
\<close>

theorem C3_accept_first_then_keep_alive:
  assumes "reachable s"
  shows "(writable (fresh s) \<longrightarrow>
            sent_to (fresh s) (wire (listen writable u s)) = [Accept]
            \<and> \<lparr>uuid = u, res = fresh s\<rparr> \<in> set (connections (listen writable u s))
            \<and> intervals (listen writable u s) \<lparr>uuid = u, res = fresh s\<rparr> = Some 5000)
       \<and> (\<forall>r. sent_to r (wire s) = [] \<or> hd (sent_to r (wire s)) = Accept)
       \<and> (\<forall>c \<in> set (connections s).
            intervals s c = Some 5000
            \<and> (writable (res c) \<longrightarrow>
                 interval_fires writable c s = s\<lparr>wire := wire s @ [(res c, Ping)]\<rparr>))"
proof -
  have c: "consistent s" using assms by (rule reachable_consistent)
  have "\<forall>(r, p) \<in> set (wire s). r < fresh s" using c by (simp add: consistent_def)
  then have none: "sent_to (fresh s) (wire s) = []" by (rule sent_to_fresh)
  have 1: "writable (fresh s) \<longrightarrow>
            sent_to (fresh s) (wire (listen writable u s)) = [Accept]
            \<and> \<lparr>uuid = u, res = fresh s\<rparr> \<in> set (connections (listen writable u s))
            \<and> intervals (listen writable u s) \<lparr>uuid = u, res = fresh s\<rparr> = Some 5000"
  proof
    assume w: "writable (fresh s)"
    show "sent_to (fresh s) (wire (listen writable u s)) = [Accept]
            \<and> \<lparr>uuid = u, res = fresh s\<rparr> \<in> set (connections (listen writable u s))
            \<and> intervals (listen writable u s) \<lparr>uuid = u, res = fresh s\<rparr> = Some 5000"
      unfolding listen_ok [of writable s u, OF w]
      using none by (simp add: sent_to_append sent_to_single)
  qed
  have 2: "\<forall>r. sent_to r (wire s) = [] \<or> hd (sent_to r (wire s)) = Accept"
    using c by (simp add: consistent_def)
  have 3: "\<forall>c \<in> set (connections s).
            intervals s c = Some 5000
            \<and> (writable (res c) \<longrightarrow>
                 interval_fires writable c s = s\<lparr>wire := wire s @ [(res c, Ping)]\<rparr>)"
  proof (intro ballI conjI impI)
    fix d assume m: "d \<in> set (connections s)"
    show t: "intervals s d = Some 5000" using c m by (simp add: consistent_def)
    assume w: "writable (res d)"
    show "interval_fires writable d s = s\<lparr>wire := wire s @ [(res d, Ping)]\<rparr>"
      using t w by (simp add: interval_fires_def sseSend_def)
  qed
  show ?thesis
    using 1 2 3 by (intro conjI) assumption+
qed


theorem C3_witness:
  "reachable listeners_B_C
   \<and> all_writable (fresh listeners_B_C)
   \<and> sent_to (fresh listeners_B_C) (wire (listen all_writable ''D'' listeners_B_C)) = [Accept]
   \<and> intervals (listen all_writable ''D'' listeners_B_C)
        \<lparr>uuid = ''D'', res = fresh listeners_B_C\<rparr> = Some 5000
   \<and> sent_to 0 (wire listeners_B_C) = [Accept]
   \<and> \<lparr>uuid = ''B'', res = 0\<rparr> \<in> set (connections listeners_B_C)
   \<and> intervals listeners_B_C \<lparr>uuid = ''B'', res = 0\<rparr> = Some 5000
   \<and> all_writable (res \<lparr>uuid = ''B'', res = 0\<rparr>)
   \<and> sent_to 0 (wire (interval_fires all_writable \<lparr>uuid = ''B'', res = 0\<rparr> listeners_B_C))
        = [Accept, Ping]"
proof -
  have m: "\<lparr>uuid = ''B'', res = 0\<rparr> \<in> set (connections listeners_B_C)"
    by (simp add: listeners_B_C_state)
  have w: "all_writable (fresh listeners_B_C)" "all_writable (res \<lparr>uuid = ''B'', res = 0\<rparr>)"
    by (simp_all add: all_writable_def)
  have s0: "sent_to 0 (wire listeners_B_C) = [Accept]"
    by (simp add: listeners_B_C_state sent_to_def)
  note inst = C3_accept_first_then_keep_alive
               [OF reachable_listeners_B_C, of all_writable "''D''"]
  from inst w(1) have a:
    "sent_to (fresh listeners_B_C) (wire (listen all_writable ''D'' listeners_B_C)) = [Accept]"
    "intervals (listen all_writable ''D'' listeners_B_C)
        \<lparr>uuid = ''D'', res = fresh listeners_B_C\<rparr> = Some 5000"
    by simp_all
  from inst m w(2) have b:
    "intervals listeners_B_C \<lparr>uuid = ''B'', res = 0\<rparr> = Some 5000"
    "interval_fires all_writable \<lparr>uuid = ''B'', res = 0\<rparr> listeners_B_C
       = listeners_B_C\<lparr>wire := wire listeners_B_C @ [(res \<lparr>uuid = ''B'', res = 0\<rparr>, Ping)]\<rparr>"
    by blast+
  have c: "sent_to 0 (wire (interval_fires all_writable \<lparr>uuid = ''B'', res = 0\<rparr> listeners_B_C))
        = [Accept, Ping]"
    unfolding b(2) by (simp add: sent_to_append s0 sent_to_single)
  from reachable_listeners_B_C w a s0 m b(1) c show ?thesis by simp
qed

end
